theory Spec2Isabelle
  imports Main "HOL-Library.Sublist"
begin

section \<open>Exceptions\<close>

text \<open>
  Modelled from the spec: the exception taxonomy (section 3, \<^emph>\<open>RetriableError\<close>; section 7). The
  classes that \<^verbatim>\<open>neutron_lib/db/api.py\<close> names, raises or catches are imported (oslo.db,
  SQLAlchemy, \<^verbatim>\<open>neutron_lib.exceptions\<close>, \<^verbatim>\<open>neutron_lib.objects.exceptions\<close>, the Python
  built-ins), so only their names and their subclass relation are written down: \<^verbatim>\<open>DBDeadlock\<close>, \<^verbatim>\<open>DBConnectionError\<close>, \<^verbatim>\<open>DBDuplicateEntry\<close> and
  \<^verbatim>\<open>DBReferenceError\<close> derive from \<^verbatim>\<open>DBError\<close>; every class derives from \<^verbatim>\<open>Exception\<close>.
  \<^verbatim>\<open>DBReferenceError\<close> stands for the subclasses of \<^verbatim>\<open>DBError\<close> that the classifier does not
  list, \<^verbatim>\<open>ValueError\<close> and the other built-ins for exceptions unrelated to the database.
\<close>

datatype exc_class =
    Exception
  | DBError | DBDeadlock | DBConnectionError | DBDuplicateEntry | DBReferenceError
  | RetryRequest | StaleDataError | NeutronDbObjectDuplicateEntry | MultipleExceptions
  | RuntimeError | AssertionError | ValueError | IndexError | AttributeError
  | InvalidRequestError

text \<open>The method resolution order of a class: the class itself and all its bases.\<close>

fun mro :: "exc_class \<Rightarrow> exc_class list" where
  "mro Exception = [Exception]"
| "mro DBDeadlock = [DBDeadlock, DBError, Exception]"
| "mro DBConnectionError = [DBConnectionError, DBError, Exception]"
| "mro DBDuplicateEntry = [DBDuplicateEntry, DBError, Exception]"
| "mro DBReferenceError = [DBReferenceError, DBError, Exception]"
| "mro c = [c, Exception]"

text \<open>
  An exception object, with the attributes the module reads or writes:
  \<^item> \<open>cls\<close>: its class;
  \<^item> \<open>RETRY_EXCEEDED\<close>: the attribute \<^verbatim>\<open>_RETRY_EXCEEDED\<close>, read with
    \<^verbatim>\<open>getattr(e, '_RETRY_EXCEEDED', False)\<close> (absent or falsy is \<open>False\<close>);
  \<^item> \<open>str\<close>: the value of \<^verbatim>\<open>str(e)\<close>;
  \<^item> \<open>inner_exceptions\<close>: the list a \<^verbatim>\<open>MultipleExceptions\<close> carries;
  \<^item> \<open>inner_exception\<close>: the cause a \<^verbatim>\<open>DBError\<close> carries (it may be \<^verbatim>\<open>None\<close>);
  \<^item> \<open>inner_exc\<close>: the exception a \<^verbatim>\<open>RetryRequest\<close> was built from.
\<close>

datatype exc = Exc (cls: exc_class) (RETRY_EXCEEDED: bool) (str: string)
  (inner_exceptions: "exc list") (inner_exception: "exc option") (inner_exc: "exc option")

text \<open>\<^verbatim>\<open>isinstance(e, etypes)\<close>, with \<open>etypes\<close> one class or a tuple of classes.\<close>

definition isinstance :: "exc \<Rightarrow> exc_class list \<Rightarrow> bool" where
  "isinstance e etypes = list_ex (\<lambda>t. t \<in> set (mro (cls e))) etypes"

text \<open>\<^verbatim>\<open>setattr(e, '_RETRY_EXCEEDED', True)\<close>: the same exception, flagged.\<close>

fun set_RETRY_EXCEEDED :: "exc \<Rightarrow> exc" where
  "set_RETRY_EXCEEDED (Exc c fl s inners inner ie) = Exc c True s inners inner ie"

section \<open>The error classifier\<close>

text \<open>
  \<^verbatim>\<open>_is_nested_instance(e, etypes)\<close>. A \<^verbatim>\<open>DBError\<close> whose \<^verbatim>\<open>inner_exception\<close> is \<^verbatim>\<open>None\<close>
  recurses into \<^verbatim>\<open>None\<close>, which is an instance of nothing: the answer is \<open>False\<close>.
\<close>

fun is_nested_instance :: "exc \<Rightarrow> exc_class list \<Rightarrow> bool" where
  "is_nested_instance (Exc c fl s inners inner ie) etypes =
     (if isinstance (Exc c fl s inners inner ie) etypes then True
      else if isinstance (Exc c fl s inners inner ie) [MultipleExceptions]
        then list_ex (\<lambda>i. is_nested_instance i etypes) inners
      else if isinstance (Exc c fl s inners inner ie) [DBError]
        then (case inner of None \<Rightarrow> False | Some i \<Rightarrow> is_nested_instance i etypes)
      else False)"

text \<open>\<^verbatim>\<open>is_retriable(e)\<close>; \<^verbatim>\<open>'1305' in str(e)\<close> is the substring test.\<close>

definition is_retriable :: "exc \<Rightarrow> bool" where
  "is_retriable e =
     (if RETRY_EXCEEDED e then False
      else if is_nested_instance e [DBDeadlock, StaleDataError, DBConnectionError,
                                    DBDuplicateEntry, RetryRequest,
                                    NeutronDbObjectDuplicateEntry] then True
      else is_nested_instance e [DBError] \<and> sublist ''1305'' (str e))"

subsection \<open>The specification's reading of the classifier\<close>

text \<open>
  The transient kinds of the specification: deadlock, stale data, connection lost, duplicate
  unique key, explicit retry request, domain duplicate entry.
\<close>

definition transient_kinds :: "exc_class list" where
  "transient_kinds = [DBDeadlock, StaleDataError, DBConnectionError, DBDuplicateEntry,
                      RetryRequest, NeutronDbObjectDuplicateEntry]"

text \<open>
  ``\<open>e\<close> is, or transitively wraps, \<open>x\<close>'', in the specification's words: wrapping goes through
  the two container shapes, a multiple-exceptions aggregate (any of its inner exceptions) and
  a generic database error (its single inner cause), to any depth.
\<close>

inductive is_or_wraps :: "exc \<Rightarrow> exc \<Rightarrow> bool" where
  wraps_self: "is_or_wraps e e"
| wraps_multiple:
    "isinstance e [MultipleExceptions] \<Longrightarrow> i \<in> set (inner_exceptions e) \<Longrightarrow>
     is_or_wraps i x \<Longrightarrow> is_or_wraps e x"
| wraps_dberror:
    "isinstance e [DBError] \<Longrightarrow> inner_exception e = Some i \<Longrightarrow>
     is_or_wraps i x \<Longrightarrow> is_or_wraps e x"

subsection \<open>Sample exceptions\<close>

definition new_exc :: "exc_class \<Rightarrow> string \<Rightarrow> exc" where
  "new_exc c msg = Exc c False msg [] None None"

text \<open>A deadlock that already went through a retry wrapper and was flagged.\<close>

definition exhausted_deadlock :: exc where
  "exhausted_deadlock = Exc DBDeadlock True ''deadlock'' [] None None"

text \<open>
  \<^verbatim>\<open>MultipleExceptions([ValueError(), DBError(DBDeadlock())])\<close>: a deadlock two levels down,
  first through the aggregate, then through a generic database error.
\<close>

definition deadlock_in_aggregate :: exc where
  "deadlock_in_aggregate =
     Exc MultipleExceptions False ''multiple''
       [new_exc ValueError ''bad value'',
        Exc DBError False ''deadlock'' [] (Some (new_exc DBDeadlock ''deadlock'')) None]
       None None"

text \<open>A generic database error reporting MySQL's error 1305 (savepoint does not exist).\<close>

definition savepoint_error :: exc where
  "savepoint_error =
     new_exc DBError ''(1305, SAVEPOINT sa_savepoint_1 does not exist)''"

section \<open>Arguments and units of work\<close>

text \<open>
  A Python object as the retry decorators see it when it is passed as an argument:
  \<^item> \<open>ident\<close>: the identity of the object (two values are the same object instance when
    their identities are equal);
  \<^item> \<open>pytype\<close>: its type, as far as \<^verbatim>\<open>isinstance(item, (list, dict, set))\<close> and
    \<^verbatim>\<open>copy.deepcopy\<close> tell types apart (a subclass of \<^verbatim>\<open>list\<close>, \<^verbatim>\<open>dict\<close> or \<^verbatim>\<open>set\<close> counts as
    its base);
  \<^item> \<open>items\<close>: the objects it contains or refers to;
  \<^item> \<open>session_is_active\<close>: the value of \<^verbatim>\<open>item.session.is_active\<close>, \<open>None\<close> when the object has
    no such attribute.
\<close>

datatype pytype =
  PyList | PyDict | PySet | PyTuple | PyFrozenset | PyStr | PyInt | PyNone | PyObject

datatype pyval = PyVal (ident: nat) (pytype: pytype) (items: "pyval list")
  (session_is_active: "bool option")

type_synonym kwargs = "(string \<times> pyval) list"

text \<open>
  \<^verbatim>\<open>copy.deepcopy\<close> of the standard library, with the allocator (the next unused identity)
  passed through: strings, integers and \<^verbatim>\<open>None\<close> are returned as they are; a tuple whose items
  all come back as the same objects is returned as it is; every other object is rebuilt as a
  new object around the copies of its items. The copy is taken to succeed.
\<close>

fun deepcopy :: "pyval \<Rightarrow> nat \<Rightarrow> pyval \<times> nat"
  and deepcopy_items :: "pyval list \<Rightarrow> nat \<Rightarrow> pyval list \<times> nat" where
  "deepcopy (PyVal i t xs a) n =
     (if t \<in> set [PyStr, PyInt, PyNone] then (PyVal i t xs a, n)
      else (case deepcopy_items xs n of
              (ys, n') \<Rightarrow>
                if t = PyTuple \<and> ys = xs then (PyVal i t xs a, n')
                else (PyVal n' t ys a, Suc n')))"
| "deepcopy_items [] n = ([], n)"
| "deepcopy_items (x # xs) n =
     (case deepcopy x n of
        (y, n1) \<Rightarrow> (case deepcopy_items xs n1 of (ys, n2) \<Rightarrow> (y # ys, n2)))"

text \<open>\<^verbatim>\<open>_copy_if_lds(item)\<close>.\<close>

definition copy_if_lds :: "pyval \<Rightarrow> nat \<Rightarrow> pyval \<times> nat" where
  "copy_if_lds item n =
     (if pytype item \<in> set [PyList, PyDict, PySet] then deepcopy item n else (item, n))"

text \<open>
  \<^verbatim>\<open>[_copy_if_lds(a) for a in args]\<close> and
  \<^verbatim>\<open>{k: _copy_if_lds(v) for k, v in kwargs.items()}\<close>.
\<close>

fun copy_args :: "pyval list \<Rightarrow> nat \<Rightarrow> pyval list \<times> nat" where
  "copy_args [] n = ([], n)"
| "copy_args (a # rest) n =
     (case copy_if_lds a n of
        (a', n1) \<Rightarrow> (case copy_args rest n1 of (rest', n2) \<Rightarrow> (a' # rest', n2)))"

fun copy_kwargs :: "kwargs \<Rightarrow> nat \<Rightarrow> kwargs \<times> nat" where
  "copy_kwargs [] n = ([], n)"
| "copy_kwargs ((k, v) # rest) n =
     (case copy_if_lds v n of
        (v', n1) \<Rightarrow> (case copy_kwargs rest n1 of (rest', n2) \<Rightarrow> ((k, v') # rest', n2)))"

subsection \<open>What a copy is\<close>

text \<open>
  The notions the statements about the argument copy use. \<open>erase\<close> forgets the identities
  in a value, so two values with the same erasure have the same content; \<open>subvalues\<close> lists
  a value and all the objects inside it (strings, integers and \<^verbatim>\<open>None\<close> hold none).
\<close>

fun erase :: "pyval \<Rightarrow> pyval" where
  "erase (PyVal i t xs a) = PyVal 0 t (map erase xs) a"

fun subvalues :: "pyval \<Rightarrow> pyval list" where
  "subvalues (PyVal i t xs a) =
     PyVal i t xs a #
       (if t \<in> set [PyStr, PyInt, PyNone] then [] else concat (map subvalues xs))"

text \<open>The test of \<open>copy_if_lds\<close>: the value is a list, a dict or a set.\<close>

definition is_lds :: "pyval \<Rightarrow> bool" where
  "is_lds v = (pytype v \<in> set [PyList, PyDict, PySet])"

text \<open>The argument values of one invocation: the positional ones, then the keyword ones.\<close>

definition passed_values :: "pyval list \<times> kwargs \<Rightarrow> pyval list" where
  "passed_values c = fst c @ map snd (snd c)"

text \<open>
  The identities of the objects an invocation received in the places where the caller gave
  a list, a dict or a set.
\<close>

definition copy_idents :: "pyval list \<Rightarrow> pyval list \<Rightarrow> nat list" where
  "copy_idents vals passed =
     map (\<lambda>p. ident (snd p)) (filter (\<lambda>p. is_lds (fst p)) (zip vals passed))"

text \<open>
  \<open>v'\<close> is what is passed for the caller's \<open>v\<close>, with the identities \<open>lo\<close> to \<open>hi - 1\<close>
  allocated meanwhile: for a list, dict or set a value of the same type and content in which
  every list, dict and set is newly allocated; for anything else \<open>v\<close> itself.
\<close>

definition passed_for :: "nat \<Rightarrow> nat \<Rightarrow> pyval \<Rightarrow> pyval \<Rightarrow> bool" where
  "passed_for lo hi v v' =
     (if is_lds v
      then pytype v' = pytype v \<and> erase v' = erase v
           \<and> list_all (\<lambda>u. is_lds u \<longrightarrow> lo \<le> ident u \<and> ident u < hi) (subvalues v')
      else v' = v)"

text \<open>
  The invocations \<open>cs\<close> of a function called with \<open>args\<close> and \<open>kwargs\<close> all received
  arguments of the same shape, each passed as \<open>passed_for\<close> says, and no two of the copies
  handed out, over all invocations and all argument places, are the same object.
\<close>

definition attempts_pass ::
  "pyval list \<Rightarrow> kwargs \<Rightarrow> nat \<Rightarrow> nat \<Rightarrow> (pyval list \<times> kwargs) list \<Rightarrow> bool" where
  "attempts_pass args kwargs lo hi cs =
     ((\<forall>c \<in> set cs. length (fst c) = length args \<and> map fst (snd c) = map fst kwargs
          \<and> list_all2 (passed_for lo hi) (args @ map snd kwargs) (passed_values c))
      \<and> distinct (concat (map (\<lambda>c. copy_idents (args @ map snd kwargs) (passed_values c)) cs)))"

text \<open>
  The state a decorated call runs in: the allocator \<open>next_id\<close>, the record \<open>calls\<close> of the
  arguments each invocation of the undecorated function received (kept to state what the
  decorators pass on and how often), and \<open>app\<close>, all the state the function itself reads and
  writes (the database, the sessions).
\<close>

record 's world =
  next_id :: nat
  calls :: "(pyval list \<times> kwargs) list"
  app :: 's

type_synonym ('s, 'r) callable =
  "pyval list \<Rightarrow> kwargs \<Rightarrow> 's world \<Rightarrow> (exc + 'r) \<times> 's world"

text \<open>
  The undecorated function \<open>f\<close>: its body \<open>g\<close> works on the application state and raises or
  returns; every invocation is recorded.
\<close>

definition unit_of_work ::
  "(pyval list \<Rightarrow> kwargs \<Rightarrow> 's \<Rightarrow> (exc + 'r) \<times> 's) \<Rightarrow> ('s, 'r) callable" where
  "unit_of_work g args kwargs w =
     (case g args kwargs (app w) of
        (r, s') \<Rightarrow> (r, w\<lparr>calls := calls w @ [(args, kwargs)], app := s'\<rparr>))"

section \<open>The retry-exhaustion tagger and the bounded retry executor\<close>

definition MAX_RETRIES :: nat where
  "MAX_RETRIES = 20"

text \<open>
  \<^verbatim>\<open>_tag_retriables_as_unretriable(f)\<close>: the exception is re-raised by
  \<^verbatim>\<open>save_and_reraise_exception\<close>, flagged first when the classifier finds it retriable.
\<close>

definition tag_retriables_as_unretriable :: "('s, 'r) callable \<Rightarrow> ('s, 'r) callable" where
  "tag_retriables_as_unretriable f args kwargs w =
     (case f args kwargs w of
        (Inr v, w') \<Rightarrow> (Inr v, w')
      | (Inl e, w') \<Rightarrow> (Inl (if is_retriable e then set_RETRY_EXCEEDED e else e), w'))"

text \<open>
  Modelled from the spec: \<^verbatim>\<open>oslo_db.api.wrap_db_retry\<close>, which builds \<^verbatim>\<open>_retry_db_errors\<close>, is
  imported from oslo.db and its loop is not part of this repository. The specification
  (section 4.3) gives the policy: up to a fixed maximum of \<open>max_retries\<close> attempts, a further
  attempt only when the exception checker accepts the exception; once the attempts are
  exhausted, or on an exception the checker refuses, the last exception propagates. The
  delays between attempts take time and change no state.

  \<open>retry_attempts further\<close> makes one attempt and at most \<open>further\<close> more.
\<close>

fun retry_attempts ::
  "nat \<Rightarrow> (exc \<Rightarrow> bool) \<Rightarrow> ('w \<Rightarrow> (exc + 'r) \<times> 'w) \<Rightarrow> 'w \<Rightarrow> (exc + 'r) \<times> 'w" where
  "retry_attempts 0 exception_checker attempt w = attempt w"
| "retry_attempts (Suc further) exception_checker attempt w =
     (case attempt w of
        (Inr v, w') \<Rightarrow> (Inr v, w')
      | (Inl e, w') \<Rightarrow>
          if exception_checker e then retry_attempts further exception_checker attempt w'
          else (Inl e, w'))"

definition wrap_db_retry ::
  "nat \<Rightarrow> (exc \<Rightarrow> bool) \<Rightarrow> ('s, 'r) callable \<Rightarrow> ('s, 'r) callable" where
  "wrap_db_retry max_retries exception_checker f args kwargs w =
     retry_attempts (max_retries - 1) exception_checker (f args kwargs) w"

text \<open>
  The innermost function \<^verbatim>\<open>wrapped\<close> of \<^verbatim>\<open>retry_db_errors\<close>: it copies the arguments and calls
  \<open>f\<close>. Its \<^verbatim>\<open>except\<close> clause only logs and re-raises the exception as it is.
\<close>

definition retry_db_errors_wrapped :: "('s, 'r) callable \<Rightarrow> ('s, 'r) callable" where
  "retry_db_errors_wrapped f args kwargs w =
     (case copy_args args (next_id w) of
        (dup_args, n1) \<Rightarrow>
          (case copy_kwargs kwargs n1 of
             (dup_kwargs, n2) \<Rightarrow> f dup_args dup_kwargs (w\<lparr>next_id := n2\<rparr>)))"

text \<open>
  \<^verbatim>\<open>retry_db_errors(f)\<close>: the decorators apply from the bottom up, so the tagger is outermost,
  the retry loop is inside it, and the argument copy is inside the loop.
\<close>

definition retry_db_errors :: "('s, 'r) callable \<Rightarrow> ('s, 'r) callable" where
  "retry_db_errors f =
     tag_retriables_as_unretriable
       (wrap_db_retry MAX_RETRIES is_retriable (retry_db_errors_wrapped f))"

section \<open>The context-sensitive retry gate\<close>

text \<open>
  A function object: the argument names \<^verbatim>\<open>getargspec(f).args\<close> reports, and what calling it
  does.
\<close>

record ('s, 'r) pyfunction =
  argnames :: "string list"
  fn :: "('s, 'r) callable"

text \<open>\<^verbatim>\<open>list.index\<close>: the position of the first equal element, \<open>None\<close> for \<^verbatim>\<open>ValueError\<close>.\<close>

fun list_index :: "'a list \<Rightarrow> 'a \<Rightarrow> nat option" where
  "list_index [] x = None"
| "list_index (y # ys) x = (if y = x then Some 0 else map_option Suc (list_index ys x))"

text \<open>
  How \<^verbatim>\<open>wrapped\<close> finds the context at call time: by keyword when the keyword is given, by
  position otherwise (\<^verbatim>\<open>IndexError\<close> when there are too few positional arguments).
\<close>

definition context_argument :: "string \<Rightarrow> nat \<Rightarrow> pyval list \<Rightarrow> kwargs \<Rightarrow> exc + pyval" where
  "context_argument context_var_name ctx_arg_index args kwargs =
     (case map_of kwargs context_var_name of
        Some context \<Rightarrow> Inr context
      | None \<Rightarrow>
          if ctx_arg_index < length args then Inr (args ! ctx_arg_index)
          else Inl (new_exc IndexError ''tuple index out of range''))"

text \<open>
  \<^verbatim>\<open>retry_if_session_inactive(context_var_name)(f)\<close>: either the \<^verbatim>\<open>RuntimeError\<close> raised while
  decorating, or the function \<^verbatim>\<open>wrapped\<close>.
\<close>

definition retry_if_session_inactive ::
  "string \<Rightarrow> ('s, 'r) pyfunction \<Rightarrow> exc + ('s, 'r) callable" where
  "retry_if_session_inactive context_var_name f =
     (case list_index (argnames f) context_var_name of
        None \<Rightarrow>
          Inl (new_exc RuntimeError (''Could not find position of var '' @ context_var_name))
      | Some ctx_arg_index \<Rightarrow>
          Inr (\<lambda>args kwargs w.
            case context_argument context_var_name ctx_arg_index args kwargs of
              Inl e \<Rightarrow> (Inl e, w)
            | Inr context \<Rightarrow>
                (case session_is_active context of
                   None \<Rightarrow> (Inl (new_exc AttributeError ''session''), w)
                 | Some active \<Rightarrow>
                     (if active then fn f else retry_db_errors (fn f)) args kwargs w)))"

subsection \<open>Sample units of work\<close>

text \<open>A body that raises a deadlock on every call and counts its calls in its state.\<close>

definition always_deadlock :: "pyval list \<Rightarrow> kwargs \<Rightarrow> nat \<Rightarrow> (exc + unit) \<times> nat" where
  "always_deadlock args kwargs s = (Inl (new_exc DBDeadlock ''deadlock''), Suc s)"

text \<open>A body that returns at once.\<close>

definition returns_none :: "pyval list \<Rightarrow> kwargs \<Rightarrow> nat \<Rightarrow> (exc + unit) \<times> nat" where
  "returns_none args kwargs s = (Inr (), Suc s)"

text \<open>
  The object \<^verbatim>\<open>self\<close> of a method, a context whose session is inside a transaction, one whose
  session is not, a list of two integers, and a tuple holding a list.
\<close>

definition plugin :: pyval where
  "plugin = PyVal 0 PyObject [] None"

definition active_context :: pyval where
  "active_context = PyVal 1 PyObject [] (Some True)"

definition inactive_context :: pyval where
  "inactive_context = PyVal 2 PyObject [] (Some False)"

definition port_ids :: pyval where
  "port_ids = PyVal 3 PyList [PyVal 4 PyInt [] None, PyVal 5 PyInt [] None] None"

definition tuple_of_list :: pyval where
  "tuple_of_list = PyVal 6 PyTuple [PyVal 7 PyList [] None] None"

text \<open>A dict of filters holding one list.\<close>

definition filters :: pyval where
  "filters = PyVal 8 PyDict [PyVal 9 PyList [] None] None"

definition start :: "nat world" where
  "start = \<lparr>next_id = 10, calls = [], app = 0\<rparr>"

text \<open>\<^verbatim>\<open>def update(self, context, ids)\<close>, failing with a deadlock every time.\<close>

definition update_ports :: "(nat, unit) pyfunction" where
  "update_ports =
     \<lparr>argnames = [''self'', ''context'', ''ids''], fn = unit_of_work always_deadlock\<rparr>"

section \<open>The exception-to-retry converter\<close>

text \<open>
  A computation that may raise: it takes the state and returns the updated state with either
  the exception raised (\<open>Inl\<close>) or the value returned (\<open>Inr\<close>).

  \<^verbatim>\<open>exc_to_retry(etypes)\<close> around a block \<open>body\<close>. An exception of the block that is a nested
  instance of \<open>etypes\<close> is dropped (\<^verbatim>\<open>ctx.reraise = False\<close>) and \<^verbatim>\<open>RetryRequest(e)\<close> is raised in
  its place; \<^verbatim>\<open>RetryRequest.__init__\<close> stores \<open>e\<close> as \<^verbatim>\<open>inner_exc\<close>, and the string of the new
  exception is the string of its only argument. Any other exception is re-raised by
  \<^verbatim>\<open>save_and_reraise_exception\<close> as it is.
\<close>

definition exc_to_retry ::
  "exc_class list \<Rightarrow> ('s \<Rightarrow> (exc + 'a) \<times> 's) \<Rightarrow> 's \<Rightarrow> (exc + 'a) \<times> 's" where
  "exc_to_retry etypes body s =
     (case body s of
        (Inr v, s') \<Rightarrow> (Inr v, s')
      | (Inl e, s') \<Rightarrow>
          if is_nested_instance e etypes
          then (Inl (Exc RetryRequest False (str e) [] None (Some e)), s')
          else (Inl e, s'))"

text \<open>A block that always raises the deadlock wrapped in an aggregate, and one that returns.\<close>

definition raise_wrapped_deadlock :: "nat \<Rightarrow> (exc + unit) \<times> nat" where
  "raise_wrapped_deadlock s = (Inl deadlock_in_aggregate, Suc s)"

definition return_unit :: "nat \<Rightarrow> (exc + unit) \<times> nat" where
  "return_unit s = (Inr (), Suc s)"

section \<open>The transaction context manager\<close>

text \<open>
  The object \<^verbatim>\<open>enginefacade.transaction_context()\<close> returns, with the two options the module
  configures. \<open>ctx_id\<close> is the identity of the object, \<open>configure_calls\<close> counts the calls of
  \<^verbatim>\<open>configure\<close> on it.
\<close>

record transaction_context =
  ctx_id :: nat
  sqlite_fk :: bool
  flush_on_subtransaction :: bool
  configure_calls :: nat

text \<open>
  The module-level state: the global \<^verbatim>\<open>_CTX_MANAGER\<close> (\<^verbatim>\<open>None\<close> at import), and the number of
  transaction contexts constructed so far, which names the next one.
\<close>

record module_globals =
  CTX_MANAGER :: "transaction_context option"
  contexts_created :: nat

definition enginefacade_transaction_context :: "nat \<Rightarrow> transaction_context" where
  "enginefacade_transaction_context n =
     \<lparr>ctx_id = n, sqlite_fk = False, flush_on_subtransaction = False, configure_calls = 0\<rparr>"

definition configure :: "bool \<Rightarrow> bool \<Rightarrow> transaction_context \<Rightarrow> transaction_context" where
  "configure fk flush m =
     m\<lparr>sqlite_fk := fk, flush_on_subtransaction := flush,
       configure_calls := Suc (configure_calls m)\<rparr>"

text \<open>\<^verbatim>\<open>_create_context_manager()\<close>, run by one thread (the lock is not modelled).\<close>

definition create_context_manager ::
  "module_globals \<Rightarrow> transaction_context \<times> module_globals" where
  "create_context_manager g =
     (case CTX_MANAGER g of
        None \<Rightarrow>
          (let m = configure True True (enginefacade_transaction_context (contexts_created g))
           in (m, g\<lparr>CTX_MANAGER := Some m, contexts_created := Suc (contexts_created g)\<rparr>))
      | Some m \<Rightarrow> (m, g))"

text \<open>\<^verbatim>\<open>get_context_manager()\<close>.\<close>

definition get_context_manager ::
  "module_globals \<Rightarrow> transaction_context \<times> module_globals" where
  "get_context_manager g =
     (case CTX_MANAGER g of
        None \<Rightarrow> create_context_manager g
      | Some m \<Rightarrow> (m, g))"

text \<open>The module state right after the globals are initialised.\<close>

definition at_import :: module_globals where
  "at_import = \<lparr>CTX_MANAGER = None, contexts_created = 0\<rparr>"

section \<open>The event registry\<close>

text \<open>
  The state behind \<^verbatim>\<open>sqla_listen\<close>, \<^verbatim>\<open>sqla_remove\<close> and \<^verbatim>\<open>sqla_remove_all\<close>: the listeners
  SQLAlchemy holds, and the module's list \<^verbatim>\<open>_REGISTERED_SQLA_EVENTS\<close>. A subscription is the
  argument tuple \<open>args\<close> of the call.
\<close>

record 'a event_state =
  sqla_listeners :: "'a list"
  REGISTERED_SQLA_EVENTS :: "'a list"

text \<open>
  SQLAlchemy's \<^verbatim>\<open>event.listen\<close> and \<^verbatim>\<open>event.remove\<close>, as far as the module relies on them:
  \<^verbatim>\<open>event.remove\<close> raises \<^verbatim>\<open>InvalidRequestError\<close> when it finds no such listener, the error
  that \<^verbatim>\<open>sqla_remove_all\<close> catches as ``already removed''.
\<close>

definition event_listen :: "'a \<Rightarrow> 'a list \<Rightarrow> 'a list" where
  "event_listen args ls = ls @ [args]"

definition event_remove :: "'a \<Rightarrow> 'a list \<Rightarrow> exc + 'a list" where
  "event_remove args ls =
     (if args \<in> set ls then Inr (remove1 args ls)
      else Inl (new_exc InvalidRequestError ''No listeners found for event''))"

text \<open>\<^verbatim>\<open>sqla_listen(*args)\<close>.\<close>

definition sqla_listen :: "'a \<Rightarrow> 'a event_state \<Rightarrow> (exc + unit) \<times> 'a event_state" where
  "sqla_listen args st =
     (Inr (), st\<lparr>sqla_listeners := event_listen args (sqla_listeners st),
                REGISTERED_SQLA_EVENTS := REGISTERED_SQLA_EVENTS st @ [args]\<rparr>)"

text \<open>
  \<^verbatim>\<open>sqla_remove(*args)\<close>: \<^verbatim>\<open>event.remove(*args)\<close>, then \<^verbatim>\<open>list.remove\<close>, which deletes the first
  equal element and raises \<^verbatim>\<open>ValueError\<close> when there is none. Neither call is guarded.
\<close>

definition sqla_remove :: "'a \<Rightarrow> 'a event_state \<Rightarrow> (exc + unit) \<times> 'a event_state" where
  "sqla_remove args st =
     (case event_remove args (sqla_listeners st) of
        Inl e \<Rightarrow> (Inl e, st)
      | Inr ls \<Rightarrow>
          (let st1 = st\<lparr>sqla_listeners := ls\<rparr>
           in if args \<in> set (REGISTERED_SQLA_EVENTS st1)
              then (Inr (), st1\<lparr>REGISTERED_SQLA_EVENTS :=
                                  remove1 args (REGISTERED_SQLA_EVENTS st1)\<rparr>)
              else (Inl (new_exc ValueError ''list.remove(x): x not in list''), st1)))"

text \<open>
  \<^verbatim>\<open>sqla_remove_all()\<close>: the loop swallows \<^verbatim>\<open>InvalidRequestError\<close> and lets any other exception
  through; then the list is emptied.
\<close>

fun sqla_remove_each :: "'a list \<Rightarrow> 'a list \<Rightarrow> exc + 'a list" where
  "sqla_remove_each [] ls = Inr ls"
| "sqla_remove_each (args # rest) ls =
     (case event_remove args ls of
        Inr ls' \<Rightarrow> sqla_remove_each rest ls'
      | Inl e \<Rightarrow>
          if isinstance e [InvalidRequestError] then sqla_remove_each rest ls
          else Inl e)"

definition sqla_remove_all :: "'a event_state \<Rightarrow> (exc + unit) \<times> 'a event_state" where
  "sqla_remove_all st =
     (case sqla_remove_each (REGISTERED_SQLA_EVENTS st) (sqla_listeners st) of
        Inl e \<Rightarrow> (Inl e, st)
      | Inr ls \<Rightarrow> (Inr (), \<lparr>sqla_listeners = ls, REGISTERED_SQLA_EVENTS = []\<rparr>))"

text \<open>No listener anywhere, as in a fresh process.\<close>

definition no_events :: "string event_state" where
  "no_events = \<lparr>sqla_listeners = [], REGISTERED_SQLA_EVENTS = []\<rparr>"

section \<open>The commit-time relationship materializer\<close>

text \<open>
  A mapped object as the two session hooks see it: the relationships of its mapper, each
  with its attribute key and its \<^verbatim>\<open>lazy\<close> setting; the keys present in \<^verbatim>\<open>state.dict\<close>, the
  attributes that are populated; and the flag \<^verbatim>\<open>enable_relationship_loading\<close> sets.
\<close>

record entity =
  relationships :: "(string \<times> string) list"
  state_dict :: "string list"
  relationship_loading :: bool

text \<open>
  A session. Objects are named by their identity and live in \<open>objects\<close>; an identity without
  an object there is one whose object is gone, as a weak reference allows.
  \<^item> \<open>new\<close>: \<^verbatim>\<open>session.new\<close>, the pending objects;
  \<^item> \<open>attached\<close>: the objects for which \<^verbatim>\<open>obj in session\<close> holds;
  \<^item> \<open>nested\<close>: \<^verbatim>\<open>session.transaction.nested\<close>;
  \<^item> \<open>load_rels\<close>: the weak set \<^verbatim>\<open>session.info['_load_rels']\<close>, \<open>None\<close> when the key is absent;
  \<^item> \<open>flush_error\<close>: the exception the database answers the next flush with, if any.
\<close>

record session =
  objects :: "nat \<rightharpoonup> entity"
  new :: "nat list"
  attached :: "nat list"
  nested :: bool
  load_rels :: "nat list option"
  flush_error :: "exc option"

text \<open>
  \<^verbatim>\<open>_add_to_rel_load_list(session)\<close>, the \<^verbatim>\<open>after_flush\<close> listener:
  \<^verbatim>\<open>setdefault('_load_rels', WeakSet()).update(session.new)\<close>.
\<close>

definition add_to_rel_load_list :: "session \<Rightarrow> session" where
  "add_to_rel_load_list s =
     s\<lparr>load_rels := Some (List.union (new s) (case load_rels s of None \<Rightarrow> [] | Some l \<Rightarrow> l))\<rparr>"

text \<open>
  \<^verbatim>\<open>session.flush()\<close>, as far as the hooks are concerned: it raises what the database
  answers, or it runs the \<^verbatim>\<open>after_flush\<close> listener while the new objects are still pending and
  then makes them persistent.
\<close>

definition flush :: "session \<Rightarrow> exc + session" where
  "flush s =
     (case flush_error s of
        Some e \<Rightarrow> Inl e
      | None \<Rightarrow> Inr ((add_to_rel_load_list s)\<lparr>new := []\<rparr>))"





subsection \<open>What materialized means\<close>





subsection \<open>Sample sessions\<close>







section \<open>The classifier: proofs\<close>

lemma multiple_not_dberror:
  "isinstance e [MultipleExceptions] \<Longrightarrow> \<not> isinstance e [DBError]"
  by (cases "cls e") (simp_all add: isinstance_def)

lemma nested_instance_wraps:
  "is_nested_instance e etypes \<Longrightarrow> \<exists>x. is_or_wraps e x \<and> isinstance x etypes"
proof (induction e etypes rule: is_nested_instance.induct)
  case (1 c fl s inners inner ie etypes)
  let ?e = "Exc c fl s inners inner ie"
  show ?case
  proof (cases "isinstance ?e etypes")
    case True
    then show ?thesis using wraps_self by blast
  next
    case notself: False
    show ?thesis
    proof (cases "isinstance ?e [MultipleExceptions]")
      case True
      with notself "1.prems" obtain i where i: "i \<in> set inners" "is_nested_instance i etypes"
        by (auto simp: list_ex_iff)
      with "1.IH"(1)[OF notself True i(1)] obtain x where "is_or_wraps i x" "isinstance x etypes"
        by blast
      with True i(1) show ?thesis
        using wraps_multiple[of ?e i x] by auto
    next
      case notmulti: False
      with notself "1.prems" obtain i where i: "isinstance ?e [DBError]" "inner = Some i"
          "is_nested_instance i etypes"
        by (auto split: if_splits option.splits)
      with "1.IH"(2)[OF notself notmulti i(1) i(2)] obtain x where
          "is_or_wraps i x" "isinstance x etypes"
        by blast
      with i show ?thesis
        using wraps_dberror[of ?e i x] by auto
    qed
  qed
qed

lemma wraps_nested_instance:
  "is_or_wraps e x \<Longrightarrow> isinstance x etypes \<Longrightarrow> is_nested_instance e etypes"
proof (induction rule: is_or_wraps.induct)
  case (wraps_self e)
  then show ?case by (cases e) simp
next
  case (wraps_multiple e i x)
  then show ?case by (cases e) (auto simp: list_ex_iff)
next
  case (wraps_dberror e i x)
  with multiple_not_dberror[of e] show ?case by (cases e) auto
qed

text \<open>The recursion of the code decides exactly the specification's wrapping relation.\<close>

lemma is_nested_instance_iff:
  "is_nested_instance e etypes \<longleftrightarrow> (\<exists>x. is_or_wraps e x \<and> isinstance x etypes)"
  using nested_instance_wraps wraps_nested_instance by blast

lemma is_retriable_flagged: "RETRY_EXCEEDED e \<Longrightarrow> \<not> is_retriable e"
  by (simp add: is_retriable_def)

lemma is_retriable_set_RETRY_EXCEEDED: "\<not> is_retriable (set_RETRY_EXCEEDED e)"
  by (cases e) (simp add: is_retriable_def)

lemma cls_set_RETRY_EXCEEDED: "cls (set_RETRY_EXCEEDED e) = cls e"
  by (cases e) simp

lemma RETRY_EXCEEDED_set: "RETRY_EXCEEDED (set_RETRY_EXCEEDED e)"
  by (cases e) simp

text \<open>
  C1. An exception that carries the retry-exhaustion flag is never retriable, whatever its
  class and whatever it wraps.
\<close>

theorem is_retriable_exhausted_false:
  "RETRY_EXCEEDED e \<Longrightarrow> is_retriable e = False"
  by (simp add: is_retriable_def)

theorem is_retriable_exhausted_false_witness:
  "RETRY_EXCEEDED exhausted_deadlock \<and> isinstance exhausted_deadlock [DBDeadlock]
   \<and> is_retriable exhausted_deadlock = False"
  using is_retriable_exhausted_false [of exhausted_deadlock]
  by (simp add: exhausted_deadlock_def isinstance_def)

text \<open>
  C2. An unflagged exception that is, or transitively wraps (through multiple-exceptions
  aggregates and generic database errors, to any depth), an instance of one of the transient
  kinds is retriable.
\<close>

theorem is_retriable_wrapped_transient:
  "\<not> RETRY_EXCEEDED e \<Longrightarrow> is_or_wraps e x \<Longrightarrow> isinstance x transient_kinds \<Longrightarrow>
   is_retriable e = True"
  using wraps_nested_instance [of e x transient_kinds]
  by (simp add: is_retriable_def transient_kinds_def)

theorem is_retriable_wrapped_transient_witness:
  "\<not> RETRY_EXCEEDED deadlock_in_aggregate
   \<and> is_or_wraps deadlock_in_aggregate (new_exc DBDeadlock ''deadlock'')
   \<and> isinstance (new_exc DBDeadlock ''deadlock'') transient_kinds
   \<and> is_retriable deadlock_in_aggregate = True"
proof -
  let ?d = "new_exc DBDeadlock ''deadlock''"
  let ?w = "Exc DBError False ''deadlock'' [] (Some ?d) None"
  have flag: "\<not> RETRY_EXCEEDED deadlock_in_aggregate"
    by (simp add: deadlock_in_aggregate_def)
  have "is_or_wraps ?w ?d"
    by (rule wraps_dberror [OF _ _ wraps_self]) (simp_all add: isinstance_def)
  then have wraps: "is_or_wraps deadlock_in_aggregate ?d"
    unfolding deadlock_in_aggregate_def
    by (rule wraps_multiple [rotated 2]) (simp_all add: isinstance_def)
  have kind: "isinstance ?d transient_kinds"
    by (simp add: isinstance_def transient_kinds_def new_exc_def)
  from is_retriable_wrapped_transient [OF flag wraps kind] flag wraps kind
  show ?thesis by simp
qed

text \<open>
  C3. For an unflagged exception that neither is nor wraps an instance of a transient kind,
  the classifier answers exactly the fallback test: the exception is, or transitively wraps,
  a generic database error, and its own string representation contains \<^verbatim>\<open>1305\<close>.
\<close>

theorem is_retriable_fallback_1305:
  "\<not> RETRY_EXCEEDED e \<Longrightarrow>
   \<not> (\<exists>x. is_or_wraps e x \<and> isinstance x transient_kinds) \<Longrightarrow>
   is_retriable e =
     ((\<exists>x. is_or_wraps e x \<and> isinstance x [DBError]) \<and> sublist ''1305'' (str e))"
proof -
  assume flag: "\<not> RETRY_EXCEEDED e"
    and none: "\<not> (\<exists>x. is_or_wraps e x \<and> isinstance x transient_kinds)"
  from none have "\<not> is_nested_instance e transient_kinds"
    by (simp only: is_nested_instance_iff not_False_eq_True)
  with flag have "is_retriable e = (is_nested_instance e [DBError] \<and> sublist ''1305'' (str e))"
    by (simp add: is_retriable_def transient_kinds_def)
  then show ?thesis
    by (simp only: is_nested_instance_iff)
qed

theorem is_retriable_fallback_1305_witness:
  "\<not> RETRY_EXCEEDED savepoint_error
   \<and> \<not> (\<exists>x. is_or_wraps savepoint_error x \<and> isinstance x transient_kinds)
   \<and> sublist ''1305'' (str savepoint_error)
   \<and> is_retriable savepoint_error = True
   \<and> is_retriable (new_exc DBError ''syntax error'') = False
   \<and> is_retriable (new_exc ValueError ''1305'') = False"
proof -
  have flag: "\<not> RETRY_EXCEEDED savepoint_error"
    by (simp add: savepoint_error_def new_exc_def)
  have "\<not> is_nested_instance savepoint_error transient_kinds"
    by (simp add: savepoint_error_def new_exc_def transient_kinds_def isinstance_def)
  then have none: "\<not> (\<exists>x. is_or_wraps savepoint_error x \<and> isinstance x transient_kinds)"
    by (simp add: is_nested_instance_iff)
  have db: "\<exists>x. is_or_wraps savepoint_error x \<and> isinstance x [DBError]"
    using wraps_self [of savepoint_error]
    by (auto simp: savepoint_error_def new_exc_def isinstance_def)
  have sub: "sublist ''1305'' (str savepoint_error)"
    by (simp add: savepoint_error_def new_exc_def) code_simp
  have other: "is_retriable (new_exc DBError ''syntax error'') = False"
      "is_retriable (new_exc ValueError ''1305'') = False"
    by (simp_all add: is_retriable_def new_exc_def isinstance_def) code_simp
  from is_retriable_fallback_1305 [OF flag none] flag none db sub other
  show ?thesis by simp
qed

section \<open>The bounded retry executor: proofs\<close>

lemma wrapped_unit_of_work:
  "retry_db_errors_wrapped (unit_of_work g) args kwargs w =
     (let da = fst (copy_args args (next_id w));
          n1 = snd (copy_args args (next_id w));
          dk = fst (copy_kwargs kwargs n1);
          n2 = snd (copy_kwargs kwargs n1)
      in (fst (g da dk (app w)),
          \<lparr>next_id = n2, calls = calls w @ [(da, dk)], app = snd (g da dk (app w))\<rparr>))"
  by (simp add: retry_db_errors_wrapped_def unit_of_work_def Let_def split: prod.splits)

lemma retry_attempts_persistent:
  assumes grow: "\<And>w. length (calls (snd (attempt w))) = length (calls w) + k"
    and fail: "\<And>w. \<exists>e. fst (attempt w) = Inl e \<and> chk e"
  shows "\<exists>w0. retry_attempts n chk attempt w = attempt w0
            \<and> length (calls (snd (attempt w0))) = length (calls w) + Suc n * k"
proof (induction n arbitrary: w)
  case 0
  show ?case using grow [of w] by auto
next
  case (Suc n)
  from fail [of w] obtain e where e: "fst (attempt w) = Inl e" "chk e" by blast
  obtain w1 where w1: "attempt w = (Inl e, w1)" using e(1) by (cases "attempt w") auto
  from Suc.IH [of w1] obtain w0 where
    w0: "retry_attempts n chk attempt w1 = attempt w0"
        "length (calls (snd (attempt w0))) = length (calls w1) + Suc n * k"
    by blast
  from grow [of w] w1 have "length (calls w1) = length (calls w) + k" by simp
  with w0 w1 e show ?case by (auto simp: algebra_simps)
qed

lemma retry_attempts_bound:
  assumes grow: "\<And>w. length (calls (snd (attempt w))) = Suc (length (calls w))"
  shows "length (calls (snd (retry_attempts n chk attempt w))) \<le> length (calls w) + Suc n
         \<and> length (calls w) < length (calls (snd (retry_attempts n chk attempt w)))"
proof (induction n arbitrary: w)
  case 0
  show ?case using grow [of w] by auto
next
  case (Suc n)
  obtain r w1 where w1: "attempt w = (r, w1)" by (cases "attempt w") auto
  from grow [of w] w1 have len: "length (calls w1) = Suc (length (calls w))" by simp
  show ?case
  proof (cases r)
    case (Inr v)
    with w1 len show ?thesis by simp
  next
    case (Inl e)
    with w1 len Suc.IH [of w1] show ?thesis by auto
  qed
qed

lemma unit_of_work_grows:
  "length (calls (snd (retry_db_errors_wrapped (unit_of_work g) args kwargs w)))
     = Suc (length (calls w))"
  by (simp add: wrapped_unit_of_work Let_def)

lemma tag_calls:
  "calls (snd (tag_retriables_as_unretriable f args kwargs w)) = calls (snd (f args kwargs w))"
  by (simp add: tag_retriables_as_unretriable_def split: prod.splits sum.splits)

lemma retry_db_errors_attempt_bound:
  "length (calls (snd (retry_db_errors (unit_of_work g) args kwargs w)))
     \<le> length (calls w) + 20
   \<and> length (calls w) < length (calls (snd (retry_db_errors (unit_of_work g) args kwargs w)))"
  using retry_attempts_bound [of "retry_db_errors_wrapped (unit_of_work g) args kwargs" 19 is_retriable w]
  by (simp add: retry_db_errors_def tag_calls wrap_db_retry_def MAX_RETRIES_def unit_of_work_grows)

lemma retry_db_errors_persistent:
  assumes "\<forall>a k s. \<exists>e s'. g a k s = (Inl e, s') \<and> is_retriable e"
  shows "\<exists>e w'. retry_db_errors (unit_of_work g) args kwargs w = (Inl (set_RETRY_EXCEEDED e), w')
           \<and> length (calls w') = length (calls w) + 20
           \<and> is_retriable e
           \<and> (\<exists>s s'. g (fst (last (calls w'))) (snd (last (calls w'))) s = (Inl e, s'))"
proof -
  let ?att = "retry_db_errors_wrapped (unit_of_work g) args kwargs"
  have fail: "\<exists>e. fst (?att w) = Inl e \<and> is_retriable e" for w
    using assms by (simp add: wrapped_unit_of_work Let_def) (metis fst_conv)
  have grow: "length (calls (snd (?att w))) = length (calls w) + 1" for w
    by (simp add: unit_of_work_grows)
  from retry_attempts_persistent [of ?att 1 is_retriable 19 w, OF grow fail]
  obtain w0 where w0: "retry_attempts 19 is_retriable ?att w = ?att w0"
    "length (calls (snd (?att w0))) = length (calls w) + 20"
    by auto
  from fail [of w0] obtain e where e: "fst (?att w0) = Inl e" "is_retriable e" by blast
  define da where "da = fst (copy_args args (next_id w0))"
  define dk where "dk = fst (copy_kwargs kwargs (snd (copy_args args (next_id w0))))"
  have last: "last (calls (snd (?att w0))) = (da, dk)"
    by (simp add: wrapped_unit_of_work Let_def da_def dk_def)
  have raised: "fst (g da dk (app w0)) = Inl e"
    using e(1) by (simp add: wrapped_unit_of_work Let_def da_def dk_def)
  have res: "retry_db_errors (unit_of_work g) args kwargs w
      = (Inl (set_RETRY_EXCEEDED e), snd (?att w0))"
    using w0(1) e
    by (cases "?att w0")
       (simp add: retry_db_errors_def tag_retriables_as_unretriable_def wrap_db_retry_def
         MAX_RETRIES_def)
  from raised have "g da dk (app w0) = (Inl e, snd (g da dk (app w0)))"
    by (cases "g da dk (app w0)") simp
  with res w0(2) e(2) last show ?thesis
    by (metis fst_conv snd_conv)
qed

lemma retry_db_errors_wrapped_eq:
  "retry_db_errors_wrapped f args kwargs w =
     f (fst (copy_args args (next_id w)))
       (fst (copy_kwargs kwargs (snd (copy_args args (next_id w)))))
       (w\<lparr>next_id := snd (copy_kwargs kwargs (snd (copy_args args (next_id w))))\<rparr>)"
  by (simp add: retry_db_errors_wrapped_def split: prod.splits)

lemma retry_attempts_not_retried:
  "attempt w = (Inl e, w') \<Longrightarrow> \<not> chk e \<Longrightarrow> retry_attempts n chk attempt w = (Inl e, w')"
  by (cases n) simp_all

lemma retry_db_errors_nested:
  assumes inner: "\<And>a k w0. \<exists>e w1. f a k w0 = (Inl e, w1) \<and> RETRY_EXCEEDED e
                    \<and> length (calls w1) = length (calls w0) + m"
  shows "\<exists>e w'. retry_db_errors f args kwargs w = (Inl e, w') \<and> RETRY_EXCEEDED e
           \<and> length (calls w') = length (calls w) + m"
proof -
  let ?att = "retry_db_errors_wrapped f args kwargs"
  have "\<exists>e w1. ?att w = (Inl e, w1) \<and> RETRY_EXCEEDED e
          \<and> length (calls w1) = length (calls w) + m"
    using inner
      [of "fst (copy_args args (next_id w))"
          "fst (copy_kwargs kwargs (snd (copy_args args (next_id w))))"
          "w\<lparr>next_id := snd (copy_kwargs kwargs (snd (copy_args args (next_id w))))\<rparr>"]
    by (simp add: retry_db_errors_wrapped_eq)
  then obtain e w1 where a: "?att w = (Inl e, w1)" "RETRY_EXCEEDED e"
      "length (calls w1) = length (calls w) + m"
    by blast
  from a(2) have nr: "\<not> is_retriable e" by (rule is_retriable_flagged)
  from retry_attempts_not_retried
    [of "retry_db_errors_wrapped f args kwargs" w e w1 is_retriable, OF a(1) nr]
  have "retry_db_errors f args kwargs w = (Inl e, w1)"
    using nr
    by (simp add: retry_db_errors_def tag_retriables_as_unretriable_def wrap_db_retry_def)
  with a show ?thesis by blast
qed

text \<open>
  C4. When the body raises a retriable exception on every call, \<open>retry_db_errors\<close> calls it
  20 times and no more; the exception of the last call propagates, the same exception (class,
  message and causes unchanged) with the retry-exhaustion flag set, which the classifier no
  longer accepts. A second \<open>retry_db_errors\<close> around the first therefore makes no further
  attempt: the body still runs 20 times in total.
\<close>

theorem retry_db_errors_exhaustion:
  assumes "\<forall>a k s. \<exists>e s'. g a k s = (Inl e, s') \<and> is_retriable e"
  shows "(\<exists>e w'. retry_db_errors (unit_of_work g) args kwargs w
                   = (Inl (set_RETRY_EXCEEDED e), w')
            \<and> length (calls w') = length (calls w) + 20
            \<and> (\<exists>s s'. g (fst (last (calls w'))) (snd (last (calls w'))) s = (Inl e, s'))
            \<and> cls (set_RETRY_EXCEEDED e) = cls e
            \<and> RETRY_EXCEEDED (set_RETRY_EXCEEDED e)
            \<and> \<not> is_retriable (set_RETRY_EXCEEDED e))
       \<and> (\<exists>e w'. retry_db_errors (retry_db_errors (unit_of_work g)) args kwargs w = (Inl e, w')
            \<and> RETRY_EXCEEDED e
            \<and> length (calls w') = length (calls w) + 20)"
proof -
  have one: "\<exists>e w1. retry_db_errors (unit_of_work g) a k w0 = (Inl e, w1) \<and> RETRY_EXCEEDED e
      \<and> length (calls w1) = length (calls w0) + 20" for a k w0
    using retry_db_errors_persistent [OF assms, of a k w0] RETRY_EXCEEDED_set by blast
  from retry_db_errors_persistent [OF assms, of args kwargs w]
  have first: "\<exists>e w'. retry_db_errors (unit_of_work g) args kwargs w
                   = (Inl (set_RETRY_EXCEEDED e), w')
            \<and> length (calls w') = length (calls w) + 20
            \<and> (\<exists>s s'. g (fst (last (calls w'))) (snd (last (calls w'))) s = (Inl e, s'))
            \<and> cls (set_RETRY_EXCEEDED e) = cls e
            \<and> RETRY_EXCEEDED (set_RETRY_EXCEEDED e)
            \<and> \<not> is_retriable (set_RETRY_EXCEEDED e)"
    using cls_set_RETRY_EXCEEDED RETRY_EXCEEDED_set is_retriable_set_RETRY_EXCEEDED by blast
  from retry_db_errors_nested [of "retry_db_errors (unit_of_work g)" 20 args kwargs w, OF one]
    first
  show ?thesis by blast
qed

theorem retry_db_errors_exhaustion_witness:
  "(\<forall>a k s. \<exists>e s'. always_deadlock a k s = (Inl e, s') \<and> is_retriable e)
   \<and> (\<exists>w'. retry_db_errors (unit_of_work always_deadlock) [inactive_context, port_ids] [] start
             = (Inl (Exc DBDeadlock True ''deadlock'' [] None None), w')
           \<and> length (calls w') = 20)
   \<and> (\<exists>e w'. retry_db_errors (retry_db_errors (unit_of_work always_deadlock))
                [inactive_context, port_ids] [] start = (Inl e, w')
           \<and> RETRY_EXCEEDED e \<and> length (calls w') = 20)"
proof -
  have h: "\<forall>a k s. \<exists>e s'. always_deadlock a k s = (Inl e, s') \<and> is_retriable e"
    by (simp add: always_deadlock_def is_retriable_def isinstance_def new_exc_def)
  have c: "calls start = []" by (simp add: start_def)
  from retry_db_errors_exhaustion [OF h, of "[inactive_context, port_ids]" "[]" start]
  obtain e w' s s' where
    r: "retry_db_errors (unit_of_work always_deadlock) [inactive_context, port_ids] [] start
          = (Inl (set_RETRY_EXCEEDED e), w')"
      "length (calls w') = length (calls start) + 20"
      "always_deadlock (fst (last (calls w'))) (snd (last (calls w'))) s = (Inl e, s')"
    and n: "\<exists>e w'. retry_db_errors (retry_db_errors (unit_of_work always_deadlock))
                [inactive_context, port_ids] [] start = (Inl e, w')
           \<and> RETRY_EXCEEDED e \<and> length (calls w') = length (calls start) + 20"
    by blast
  from r(3) have "e = Exc DBDeadlock False ''deadlock'' [] None None"
    by (simp add: always_deadlock_def new_exc_def)
  with r(1,2) c have "\<exists>w'. retry_db_errors (unit_of_work always_deadlock)
             [inactive_context, port_ids] [] start
             = (Inl (Exc DBDeadlock True ''deadlock'' [] None None), w')
           \<and> length (calls w') = 20"
    by simp
  with h n c show ?thesis by simp
qed

section \<open>The argument copy: proofs\<close>

lemma deepcopy_mono:
  "n \<le> snd (deepcopy v n)" "n \<le> snd (deepcopy_items xs n)"
proof (induction v n and xs n rule: deepcopy_deepcopy_items.induct)
  case (1 i t xs a n)
  then show ?case by (auto split: prod.splits)
next
  case (2 n)
  show ?case by simp
next
  case (3 x xs n)
  obtain y n1 where y: "deepcopy x n = (y, n1)" by (cases "deepcopy x n") auto
  with 3 show ?case by (auto split: prod.splits)
qed

lemma deepcopy_pytype: "pytype (fst (deepcopy v n)) = pytype v"
  by (cases v) (auto split: prod.splits)

lemma deepcopy_erase:
  "erase (fst (deepcopy v n)) = erase v"
  "map erase (fst (deepcopy_items xs n)) = map erase xs"
proof (induction v n and xs n rule: deepcopy_deepcopy_items.induct)
  case (1 i t xs a n)
  then show ?case by (auto split: prod.splits)
next
  case (2 n)
  show ?case by simp
next
  case (3 x xs n)
  obtain y n1 where y: "deepcopy x n = (y, n1)" by (cases "deepcopy x n") auto
  with 3 show ?case by (auto split: prod.splits)
qed

lemma deepcopy_fresh:
  "\<forall>u \<in> set (subvalues (fst (deepcopy v n))). is_lds u \<longrightarrow> n \<le> ident u \<and> ident u < snd (deepcopy v n)"
  "\<forall>y \<in> set (fst (deepcopy_items xs n)). \<forall>u \<in> set (subvalues y).
      is_lds u \<longrightarrow> n \<le> ident u \<and> ident u < snd (deepcopy_items xs n)"
proof (induction v n and xs n rule: deepcopy_deepcopy_items.induct)
  case (1 i t xs a n)
  show ?case
  proof (cases "t \<in> set [PyStr, PyInt, PyNone]")
    case True
    then show ?thesis by (auto simp: is_lds_def)
  next
    case False
    obtain ys n' where ys: "deepcopy_items xs n = (ys, n')" by (cases "deepcopy_items xs n") auto
    from deepcopy_mono(2) [of n xs] ys have le: "n \<le> n'" by simp
    from "1.IH" [OF False] ys
    have ih: "\<forall>y \<in> set ys. \<forall>u \<in> set (subvalues y). is_lds u \<longrightarrow> n \<le> ident u \<and> ident u < n'"
      by simp
    show ?thesis
    proof (cases "t = PyTuple \<and> ys = xs")
      case True
      with False ys ih show ?thesis by (auto simp: is_lds_def)
    next
      case nt: False
      with False ys ih le show ?thesis by (fastforce simp: is_lds_def)
    qed
  qed
next
  case (2 n)
  show ?case by simp
next
  case (3 x xs n)
  obtain y n1 where y: "deepcopy x n = (y, n1)" by (cases "deepcopy x n") auto
  obtain ys n2 where ys: "deepcopy_items xs n1 = (ys, n2)"
    by (cases "deepcopy_items xs n1") auto
  from deepcopy_mono(1) [of n x] y have l1: "n \<le> n1" by simp
  from deepcopy_mono(2) [of n1 xs] ys have l2: "n1 \<le> n2" by simp
  from "3.IH"(1) y have a: "\<forall>u \<in> set (subvalues y). is_lds u \<longrightarrow> n \<le> ident u \<and> ident u < n1"
    by simp
  from "3.IH"(2) [OF y [symmetric]] ys
  have b: "\<forall>z \<in> set ys. \<forall>u \<in> set (subvalues z). is_lds u \<longrightarrow> n1 \<le> ident u \<and> ident u < n2"
    by simp
  from a b l1 l2 y ys show ?case by fastforce
qed

lemma passed_for_widen:
  "passed_for lo hi v v' \<Longrightarrow> lo' \<le> lo \<Longrightarrow> hi \<le> hi' \<Longrightarrow> passed_for lo' hi' v v'"
proof -
  assume p: "passed_for lo hi v v'" and lo: "lo' \<le> lo" and hi: "hi \<le> hi'"
  have "lo' \<le> ident u \<and> ident u < hi'" if "lo \<le> ident u \<and> ident u < hi" for u
    using that lo hi by linarith
  with p show ?thesis
    unfolding passed_for_def list_all_iff by (simp split: if_splits)
qed

lemma passed_for_ident:
  "passed_for lo hi v v' \<Longrightarrow> is_lds v \<Longrightarrow> lo \<le> ident v' \<and> ident v' < hi"
  by (cases v') (auto simp: passed_for_def is_lds_def)

lemma copy_if_lds_passed:
  "n \<le> snd (copy_if_lds v n) \<and> passed_for n (snd (copy_if_lds v n)) v (fst (copy_if_lds v n))"
proof (cases "is_lds v")
  case True
  then have c: "copy_if_lds v n = deepcopy v n"
    by (simp add: copy_if_lds_def is_lds_def)
  from True deepcopy_fresh(1) [of v n] deepcopy_mono(1) [of n v] show ?thesis
    by (simp add: c passed_for_def deepcopy_pytype deepcopy_erase list_all_iff)
next
  case False
  then show ?thesis by (simp add: copy_if_lds_def is_lds_def passed_for_def)
qed

lemma copy_idents_Cons:
  "copy_idents (v # vs) (v' # vs') =
     (if is_lds v then ident v' # copy_idents vs vs' else copy_idents vs vs')"
  by (simp add: copy_idents_def)

lemma copy_idents_passed:
  "list_all2 (passed_for lo hi) vs vs' \<Longrightarrow> set (copy_idents vs vs') \<subseteq> {lo..<hi}"
proof (induction vs vs' rule: list_all2_induct)
  case Nil
  show ?case by (simp add: copy_idents_def)
next
  case (Cons v vs v' vs')
  with passed_for_ident [of lo hi v v'] show ?case
    by (auto simp: copy_idents_Cons)
qed

lemma copy_args_Cons:
  "copy_args (v # vs) n =
     (fst (copy_if_lds v n) # fst (copy_args vs (snd (copy_if_lds v n))),
      snd (copy_args vs (snd (copy_if_lds v n))))"
  by (simp split: prod.splits)

lemma copy_kwargs_Cons:
  "copy_kwargs (kv # kw) n =
     ((fst kv, fst (copy_if_lds (snd kv) n)) # fst (copy_kwargs kw (snd (copy_if_lds (snd kv) n))),
      snd (copy_kwargs kw (snd (copy_if_lds (snd kv) n))))"
  by (cases kv) (simp split: prod.splits)

lemma copy_args_passed:
  "n \<le> snd (copy_args vs n)
   \<and> list_all2 (passed_for n (snd (copy_args vs n))) vs (fst (copy_args vs n))
   \<and> distinct (copy_idents vs (fst (copy_args vs n)))"
proof (induction vs arbitrary: n)
  case Nil
  show ?case by (simp add: copy_idents_def)
next
  case (Cons v vs)
  define v' where "v' = fst (copy_if_lds v n)"
  define n1 where "n1 = snd (copy_if_lds v n)"
  define vs' where "vs' = fst (copy_args vs n1)"
  define n2 where "n2 = snd (copy_args vs n1)"
  have eq: "copy_args (v # vs) n = (v' # vs', n2)"
    by (simp only: copy_args_Cons v'_def n1_def vs'_def n2_def)
  from copy_if_lds_passed [of n v] have a: "n \<le> n1" "passed_for n n1 v v'"
    by (simp_all add: v'_def n1_def)
  from Cons.IH [of n1] have b: "n1 \<le> n2" "list_all2 (passed_for n1 n2) vs vs'"
      "distinct (copy_idents vs vs')"
    by (simp_all add: vs'_def n2_def)
  from a b have h: "passed_for n n2 v v'"
    using passed_for_widen by blast
  from b a have t: "list_all2 (passed_for n n2) vs vs'"
    by (auto elim!: list_all2_mono intro: passed_for_widen)
  have d: "distinct (copy_idents (v # vs) (v' # vs'))"
  proof (cases "is_lds v")
    case True
    from passed_for_ident [OF a(2) True] have "ident v' < n1" by simp
    moreover from copy_idents_passed [OF b(2)] have "set (copy_idents vs vs') \<subseteq> {n1..<n2}" .
    ultimately have "ident v' \<notin> set (copy_idents vs vs')" by auto
    with True b(3) show ?thesis by (simp add: copy_idents_Cons)
  next
    case False
    with b(3) show ?thesis by (simp add: copy_idents_Cons)
  qed
  from a b h t d show ?case unfolding eq by simp
qed

lemma length_copy_args: "length (fst (copy_args vs n)) = length vs"
  by (induction vs arbitrary: n) (simp_all add: copy_args_Cons del: copy_args.simps(2))

lemma copy_args_append:
  "copy_args (xs @ ys) n =
     (fst (copy_args xs n) @ fst (copy_args ys (snd (copy_args xs n))),
      snd (copy_args ys (snd (copy_args xs n))))"
  by (induction xs arbitrary: n) (simp_all add: copy_args_Cons del: copy_args.simps(2))

lemma copy_kwargs_copy_args:
  "copy_kwargs kw n =
     (zip (map fst kw) (fst (copy_args (map snd kw) n)), snd (copy_args (map snd kw) n))"
  by (induction kw arbitrary: n)
     (simp_all add: copy_args_Cons copy_kwargs_Cons del: copy_args.simps(2) copy_kwargs.simps(2))

lemma wrapped_passes_copies:
  "\<exists>c. calls (snd (retry_db_errors_wrapped (unit_of_work g) args kwargs w)) = calls w @ [c]
       \<and> length (fst c) = length args \<and> map fst (snd c) = map fst kwargs
       \<and> passed_values c = fst (copy_args (args @ map snd kwargs) (next_id w))
       \<and> next_id (snd (retry_db_errors_wrapped (unit_of_work g) args kwargs w))
           = snd (copy_args (args @ map snd kwargs) (next_id w))"
  by (simp add: wrapped_unit_of_work Let_def passed_values_def copy_args_append
      copy_kwargs_copy_args length_copy_args)

lemma attempts_pass_single:
  assumes "length (fst c) = length args" "map fst (snd c) = map fst kwargs"
    and "passed_values c = fst (copy_args (args @ map snd kwargs) lo)"
    and "hi = snd (copy_args (args @ map snd kwargs) lo)"
  shows "lo \<le> hi \<and> attempts_pass args kwargs lo hi [c]"
  using assms copy_args_passed [of lo "args @ map snd kwargs"]
  by (simp add: attempts_pass_def)

lemma attempts_pass_Cons:
  assumes c: "attempts_pass args kwargs lo mid [c]"
    and cs: "attempts_pass args kwargs mid hi cs"
    and le: "lo \<le> mid" "mid \<le> hi"
  shows "attempts_pass args kwargs lo hi (c # cs)"
proof -
  let ?vals = "args @ map snd kwargs"
  let ?ids = "\<lambda>c. copy_idents ?vals (passed_values c)"
  from c have pc: "list_all2 (passed_for lo mid) ?vals (passed_values c)"
    by (simp add: attempts_pass_def)
  from cs have pcs: "\<forall>d \<in> set cs. list_all2 (passed_for mid hi) ?vals (passed_values d)"
    by (simp add: attempts_pass_def)
  have wc: "list_all2 (passed_for lo hi) ?vals (passed_values c)"
    using pc le by (auto elim!: list_all2_mono intro: passed_for_widen)
  have wcs: "\<forall>d \<in> set cs. list_all2 (passed_for lo hi) ?vals (passed_values d)"
    using pcs le by (auto elim!: list_all2_mono intro: passed_for_widen)
  from copy_idents_passed [OF pc] have ic: "set (?ids c) \<subseteq> {lo..<mid}" .
  from pcs copy_idents_passed have "\<forall>d \<in> set cs. set (?ids d) \<subseteq> {mid..<hi}"
    by blast
  then have ics: "set (concat (map ?ids cs)) \<subseteq> {mid..<hi}"
    by auto
  from ic ics have disj: "set (?ids c) \<inter> set (concat (map ?ids cs)) = {}"
    by fastforce
  from c have dc: "distinct (?ids c)" by (simp add: attempts_pass_def)
  from cs have dcs: "distinct (concat (map ?ids cs))" by (simp add: attempts_pass_def)
  from c cs wc wcs dc dcs disj show ?thesis
    by (simp add: attempts_pass_def)
qed

lemma retry_attempts_pass_copies:
  fixes g :: "pyval list \<Rightarrow> kwargs \<Rightarrow> 's \<Rightarrow> (exc + 'r) \<times> 's"
  shows "\<exists>cs. calls (snd (retry_attempts n chk
                 (retry_db_errors_wrapped (unit_of_work g) args kwargs) w)) = calls w @ cs
          \<and> cs \<noteq> []
          \<and> next_id w \<le> next_id (snd (retry_attempts n chk
                 (retry_db_errors_wrapped (unit_of_work g) args kwargs) w))
          \<and> attempts_pass args kwargs (next_id w)
               (next_id (snd (retry_attempts n chk
                 (retry_db_errors_wrapped (unit_of_work g) args kwargs) w))) cs"
proof (induction n arbitrary: w)
  case 0
  from wrapped_passes_copies [of g args kwargs w] obtain c where
    c: "calls (snd (retry_db_errors_wrapped (unit_of_work g) args kwargs w)) = calls w @ [c]"
       "length (fst c) = length args" "map fst (snd c) = map fst kwargs"
       "passed_values c = fst (copy_args (args @ map snd kwargs) (next_id w))"
       "next_id (snd (retry_db_errors_wrapped (unit_of_work g) args kwargs w))
           = snd (copy_args (args @ map snd kwargs) (next_id w))"
    by blast
  from attempts_pass_single [OF c(2,3,4,5)] c(1) show ?case
    by auto
next
  case (Suc n)
  let ?att = "retry_db_errors_wrapped (unit_of_work g) args kwargs"
  obtain r w1 where w1: "?att w = (r, w1)" by (cases "?att w") auto
  from wrapped_passes_copies [of g args kwargs w] w1 obtain c where
    c: "calls w1 = calls w @ [c]"
       "length (fst c) = length args" "map fst (snd c) = map fst kwargs"
       "passed_values c = fst (copy_args (args @ map snd kwargs) (next_id w))"
       "next_id w1 = snd (copy_args (args @ map snd kwargs) (next_id w))"
    by auto
  from attempts_pass_single [OF c(2,3,4,5)]
  have one: "next_id w \<le> next_id w1" "attempts_pass args kwargs (next_id w) (next_id w1) [c]"
    by simp_all
  show ?case
  proof (cases "\<exists>e. r = Inl e \<and> chk e")
    case False
    then have "retry_attempts (Suc n) chk ?att w = (r, w1)"
      using w1 by (cases r) auto
    with c(1) one show ?thesis by auto
  next
    case True
    then have eq: "retry_attempts (Suc n) chk ?att w = retry_attempts n chk ?att w1"
      using w1 by auto
    from Suc.IH [of w1] obtain cs where
      cs: "calls (snd (retry_attempts n chk ?att w1)) = calls w1 @ cs"
          "next_id w1 \<le> next_id (snd (retry_attempts n chk ?att w1))"
          "attempts_pass args kwargs (next_id w1)
             (next_id (snd (retry_attempts n chk ?att w1))) cs"
      by blast
    from attempts_pass_Cons [OF one(2) cs(3) one(1) cs(2)] cs c(1) one(1)
    show ?thesis
      unfolding eq by auto
  qed
qed

lemma retry_db_errors_pass_copies:
  fixes g :: "pyval list \<Rightarrow> kwargs \<Rightarrow> 's \<Rightarrow> (exc + 'r) \<times> 's"
  shows "\<exists>cs. calls (snd (retry_db_errors (unit_of_work g) args kwargs w)) = calls w @ cs
          \<and> cs \<noteq> []
          \<and> attempts_pass args kwargs (next_id w)
               (next_id (snd (retry_db_errors (unit_of_work g) args kwargs w))) cs"
proof -
  have "snd (retry_db_errors (unit_of_work g) args kwargs w)
      = snd (retry_attempts 19 is_retriable
              (retry_db_errors_wrapped (unit_of_work g) args kwargs) w)"
    by (simp add: retry_db_errors_def tag_retriables_as_unretriable_def wrap_db_retry_def
        MAX_RETRIES_def split: prod.splits sum.splits)
  with retry_attempts_pass_copies [of 19 is_retriable g args kwargs w] show ?thesis
    by auto
qed

text \<open>
  C5 (amended). In every invocation of the body by \<open>retry_db_errors\<close>, the first and each
  retry, the arguments keep their number and keywords; an argument that is a list, a dict or
  a set is passed as a copy of equal content that is not one of the caller's argument
  objects and in which every list, dict and set is newly allocated; every other argument,
  tuples included, is passed as the caller's own object. No two of the copies handed out,
  over all attempts and argument places, are the same object.
\<close>

theorem retry_db_errors_copies_lds:
  fixes g :: "pyval list \<Rightarrow> kwargs \<Rightarrow> 's \<Rightarrow> (exc + 'r) \<times> 's"
  assumes "\<forall>v \<in> set (args @ map snd kwargs). ident v < next_id w"
  shows "\<exists>cs. calls (snd (retry_db_errors (unit_of_work g) args kwargs w)) = calls w @ cs
     \<and> cs \<noteq> []
     \<and> (\<forall>c \<in> set cs. length (fst c) = length args \<and> map fst (snd c) = map fst kwargs
          \<and> list_all2
               (\<lambda>v v'. if pytype v \<in> {PyList, PyDict, PySet}
                  then pytype v' = pytype v \<and> erase v' = erase v
                       \<and> ident v' \<notin> ident ` set (args @ map snd kwargs)
                       \<and> (\<forall>u \<in> set (subvalues v').
                             pytype u \<in> {PyList, PyDict, PySet} \<longrightarrow> next_id w \<le> ident u)
                  else v' = v)
               (args @ map snd kwargs) (passed_values c))
     \<and> distinct (concat (map (\<lambda>c. copy_idents (args @ map snd kwargs) (passed_values c)) cs))"
proof -
  let ?vals = "args @ map snd kwargs"
  let ?hi = "next_id (snd (retry_db_errors (unit_of_work g) args kwargs w))"
  let ?Q = "\<lambda>v v'. if pytype v \<in> {PyList, PyDict, PySet}
                  then pytype v' = pytype v \<and> erase v' = erase v
                       \<and> ident v' \<notin> ident ` set ?vals
                       \<and> (\<forall>u \<in> set (subvalues v').
                             pytype u \<in> {PyList, PyDict, PySet} \<longrightarrow> next_id w \<le> ident u)
                  else v' = v"
  from retry_db_errors_pass_copies [of g args kwargs w] obtain cs where
    cs: "calls (snd (retry_db_errors (unit_of_work g) args kwargs w)) = calls w @ cs"
        "cs \<noteq> []" "attempts_pass args kwargs (next_id w) ?hi cs"
    by blast
  have step: "?Q v v'" if p: "passed_for (next_id w) ?hi v v'" for v v'
  proof (cases "is_lds v")
    case True
    from passed_for_ident [OF p True] assms have "ident v' \<notin> ident ` set ?vals"
      by fastforce
    with True p show ?thesis
      by (auto simp: passed_for_def is_lds_def list_all_iff)
  next
    case False
    with p show ?thesis by (simp add: passed_for_def is_lds_def)
  qed
  have "list_all2 ?Q ?vals (passed_values c)" if "c \<in> set cs" for c
  proof -
    from cs(3) that have "list_all2 (passed_for (next_id w) ?hi) ?vals (passed_values c)"
      by (simp add: attempts_pass_def)
    then show ?thesis
      by (rule list_all2_mono) (rule step)
  qed
  with cs show ?thesis
    unfolding attempts_pass_def by blast
qed

theorem retry_db_errors_copies_lds_witness:
  "\<exists>cs. calls (snd (retry_db_errors (unit_of_work always_deadlock)
                [plugin, inactive_context, port_ids] [(''filters'', filters)] start)) = cs
        \<and> cs \<noteq> []
        \<and> list_all (\<lambda>c. length (fst c) = 3 \<and> map fst (snd c) = [''filters'']
             \<and> list_all2
                 (\<lambda>v v'. if pytype v \<in> {PyList, PyDict, PySet}
                    then pytype v' = pytype v \<and> erase v' = erase v
                         \<and> ident v' \<notin> {0, 2, 3, 8}
                    else v' = v)
                 [plugin, inactive_context, port_ids, filters]
                 (passed_values c)) cs
        \<and> distinct (concat (map (\<lambda>c. copy_idents
              [plugin, inactive_context, port_ids, filters] (passed_values c)) cs))"
proof -
  let ?args = "[plugin, inactive_context, port_ids]"
  let ?kw = "[(''filters'', filters)]"
  have wf: "\<forall>v \<in> set (?args @ map snd ?kw). ident v < next_id start"
    by (simp add: plugin_def inactive_context_def port_ids_def filters_def start_def)
  have ids: "ident ` set (?args @ map snd ?kw) = {0, 2, 3, 8}"
    by (auto simp: plugin_def inactive_context_def port_ids_def filters_def)
  have vals: "?args @ map snd ?kw = [plugin, inactive_context, port_ids, filters]"
    by simp
  from retry_db_errors_copies_lds [OF wf, of always_deadlock] obtain cs where
    cs: "calls (snd (retry_db_errors (unit_of_work always_deadlock) ?args ?kw start))
           = calls start @ cs" "cs \<noteq> []"
      "\<forall>c \<in> set cs. length (fst c) = length ?args \<and> map fst (snd c) = map fst ?kw
          \<and> list_all2
               (\<lambda>v v'. if pytype v \<in> {PyList, PyDict, PySet}
                  then pytype v' = pytype v \<and> erase v' = erase v
                       \<and> ident v' \<notin> ident ` set (?args @ map snd ?kw)
                       \<and> (\<forall>u \<in> set (subvalues v').
                             pytype u \<in> {PyList, PyDict, PySet} \<longrightarrow> next_id start \<le> ident u)
                  else v' = v)
               (?args @ map snd ?kw) (passed_values c)"
      "distinct (concat (map (\<lambda>c. copy_idents (?args @ map snd ?kw) (passed_values c)) cs))"
    by blast
  have each: "length (fst c) = 3 \<and> map fst (snd c) = [''filters'']
             \<and> list_all2
                 (\<lambda>v v'. if pytype v \<in> {PyList, PyDict, PySet}
                    then pytype v' = pytype v \<and> erase v' = erase v
                         \<and> ident v' \<notin> {0, 2, 3, 8}
                    else v' = v)
                 [plugin, inactive_context, port_ids, filters]
                 (passed_values c)" if "c \<in> set cs" for c
  proof -
    from cs(3) that have l: "length (fst c) = 3" "map fst (snd c) = [''filters'']"
      by auto
    from cs(3) that have "list_all2
               (\<lambda>v v'. if pytype v \<in> {PyList, PyDict, PySet}
                  then pytype v' = pytype v \<and> erase v' = erase v
                       \<and> ident v' \<notin> ident ` set (?args @ map snd ?kw)
                       \<and> (\<forall>u \<in> set (subvalues v').
                             pytype u \<in> {PyList, PyDict, PySet} \<longrightarrow> next_id start \<le> ident u)
                  else v' = v)
               (?args @ map snd ?kw) (passed_values c)"
      by blast
    then have "list_all2
                 (\<lambda>v v'. if pytype v \<in> {PyList, PyDict, PySet}
                    then pytype v' = pytype v \<and> erase v' = erase v
                         \<and> ident v' \<notin> {0, 2, 3, 8}
                    else v' = v)
                 (?args @ map snd ?kw) (passed_values c)"
      unfolding ids by (rule list_all2_mono) (simp split: if_splits)
    with l show ?thesis unfolding vals by simp
  qed
  have "calls start = []" by (simp add: start_def)
  with cs(1,2,4) each show ?thesis
    unfolding vals by (simp add: list_all_iff)
qed

text \<open>
  C5 as stated fails for an ordered sequence that is not a list: a tuple argument reaches
  the body as the caller's own object, the list inside it included.
\<close>

theorem retry_db_errors_tuple_counterexample:
  "pytype tuple_of_list = PyTuple
   \<and> calls (snd (retry_db_errors (unit_of_work returns_none) [tuple_of_list] [] start))
       = [([tuple_of_list], [])]"
  by (simp add: retry_db_errors_def tag_retriables_as_unretriable_def wrap_db_retry_def
      MAX_RETRIES_def retry_db_errors_wrapped_def unit_of_work_def returns_none_def
      copy_if_lds_def tuple_of_list_def start_def eval_nat_numeral)

section \<open>The context-sensitive retry gate: proofs\<close>

lemma retry_if_session_inactive_wrapped:
  assumes "retry_if_session_inactive context_var_name f = Inr wrapped"
    and "list_index (argnames f) context_var_name = Some i"
    and "context_argument context_var_name i args kwargs = Inr context"
    and "session_is_active context = Some active"
  shows "wrapped args kwargs w =
           (if active then fn f else retry_db_errors (fn f)) args kwargs w"
  using assms by (auto simp: retry_if_session_inactive_def)

text \<open>
  C6. Let \<open>wrapped\<close> be what \<open>retry_if_session_inactive\<close> makes of \<open>f\<close>, and \<open>context\<close> the
  context argument of a call, found by keyword or by position. When the session of the
  context is active the call is the call of \<open>f\<close> itself; when it is not, it is the call of
  \<open>retry_db_errors f\<close>. For a body that raises a retriable exception every time this means:
  with an active session the body runs once, on the caller's own arguments, and its exception
  propagates unflagged; with an inactive session the body runs 20 times and the exception
  propagates flagged.
\<close>

theorem retry_if_session_inactive_gate:
  assumes "retry_if_session_inactive context_var_name f = Inr wrapped"
    and "list_index (argnames f) context_var_name = Some i"
    and "context_argument context_var_name i args kwargs = Inr context"
  shows "(session_is_active context = Some True \<longrightarrow>
            wrapped args kwargs w = fn f args kwargs w)
       \<and> (session_is_active context = Some False \<longrightarrow>
            wrapped args kwargs w = retry_db_errors (fn f) args kwargs w)
       \<and> (fn f = unit_of_work g \<and> (\<forall>a k s. \<exists>e s'. g a k s = (Inl e, s') \<and> is_retriable e) \<longrightarrow>
            (session_is_active context = Some True \<longrightarrow>
               (\<exists>e s'. wrapped args kwargs w
                          = (Inl e, w\<lparr>calls := calls w @ [(args, kwargs)], app := s'\<rparr>)
                       \<and> g args kwargs (app w) = (Inl e, s') \<and> is_retriable e))
          \<and> (session_is_active context = Some False \<longrightarrow>
               (\<exists>e w'. wrapped args kwargs w = (Inl e, w') \<and> RETRY_EXCEEDED e
                       \<and> length (calls w') = length (calls w) + 20)))"
proof -
  have act: "wrapped args kwargs w = fn f args kwargs w"
    if "session_is_active context = Some True"
    using retry_if_session_inactive_wrapped [OF assms that, of w] by simp
  have inact: "wrapped args kwargs w = retry_db_errors (fn f) args kwargs w"
    if "session_is_active context = Some False"
    using retry_if_session_inactive_wrapped [OF assms that, of w] by simp
  have direct: "\<exists>e s'. unit_of_work g args kwargs w
                          = (Inl e, w\<lparr>calls := calls w @ [(args, kwargs)], app := s'\<rparr>)
                       \<and> g args kwargs (app w) = (Inl e, s') \<and> is_retriable e"
    if "\<forall>a k s. \<exists>e s'. g a k s = (Inl e, s') \<and> is_retriable e"
  proof -
    from that obtain e s' where "g args kwargs (app w) = (Inl e, s')" "is_retriable e"
      by blast
    then show ?thesis by (simp add: unit_of_work_def)
  qed
  have retried: "\<exists>e w'. retry_db_errors (unit_of_work g) args kwargs w = (Inl e, w')
                       \<and> RETRY_EXCEEDED e \<and> length (calls w') = length (calls w) + 20"
    if "\<forall>a k s. \<exists>e s'. g a k s = (Inl e, s') \<and> is_retriable e"
    using retry_db_errors_persistent [OF that, of args kwargs w] RETRY_EXCEEDED_set by blast
  from act inact direct retried show ?thesis by metis
qed

theorem retry_if_session_inactive_gate_witness:
  "\<exists>wrapped. retry_if_session_inactive ''context'' update_ports = Inr wrapped
     \<and> list_index (argnames update_ports) ''context'' = Some 1
     \<and> context_argument ''context'' 1 [plugin, active_context, port_ids] [] = Inr active_context
     \<and> context_argument ''context'' 1 [plugin] [(''context'', inactive_context)]
         = Inr inactive_context
     \<and> wrapped [plugin, active_context, port_ids] [] start
         = (Inl (new_exc DBDeadlock ''deadlock''),
            \<lparr>next_id = 10, calls = [([plugin, active_context, port_ids], [])], app = 1\<rparr>)
     \<and> (\<exists>e w'. wrapped [plugin] [(''context'', inactive_context)] start = (Inl e, w')
           \<and> RETRY_EXCEEDED e \<and> length (calls w') = 20)"
proof -
  obtain wrapped where d: "retry_if_session_inactive ''context'' update_ports = Inr wrapped"
    by (simp add: retry_if_session_inactive_def update_ports_def)
  have i: "list_index (argnames update_ports) ''context'' = Some 1"
    by (simp add: update_ports_def)
  have c1: "context_argument ''context'' 1 [plugin, active_context, port_ids] []
              = Inr active_context"
    by (simp add: context_argument_def)
  have c2: "context_argument ''context'' 1 [plugin] [(''context'', inactive_context)]
              = Inr inactive_context"
    by (simp add: context_argument_def)
  have f: "fn update_ports = unit_of_work always_deadlock"
    by (simp add: update_ports_def)
  have h: "\<forall>a k s. \<exists>e s'. always_deadlock a k s = (Inl e, s') \<and> is_retriable e"
    by (simp add: always_deadlock_def is_retriable_def isinstance_def new_exc_def)
  have a1: "session_is_active active_context = Some True"
    by (simp add: active_context_def)
  have a2: "session_is_active inactive_context = Some False"
    by (simp add: inactive_context_def)
  have "wrapped [plugin, active_context, port_ids] [] start
          = fn update_ports [plugin, active_context, port_ids] [] start"
    using retry_if_session_inactive_gate [OF d i c1, of start always_deadlock] a1 by blast
  then have r1: "wrapped [plugin, active_context, port_ids] [] start
         = (Inl (new_exc DBDeadlock ''deadlock''),
            \<lparr>next_id = 10, calls = [([plugin, active_context, port_ids], [])], app = 1\<rparr>)"
    by (simp add: f unit_of_work_def always_deadlock_def start_def)
  have r2: "\<exists>e w'. wrapped [plugin] [(''context'', inactive_context)] start = (Inl e, w')
           \<and> RETRY_EXCEEDED e \<and> length (calls w') = length (calls start) + 20"
    using retry_if_session_inactive_gate [OF d i c2, of start always_deadlock] a2 f h by blast
  have "calls start = []" by (simp add: start_def)
  with d i c1 c2 r1 r2 show ?thesis by auto
qed

section \<open>The exception-to-retry converter: proofs\<close>

text \<open>
  C8. When the block raises an exception that is, or transitively wraps, an instance of the
  supplied kinds, \<open>exc_to_retry\<close> raises a retry request built from that exception (and
  therefore retriable) in its place. Every other exception, and a normal return, pass
  through unchanged.
\<close>

theorem exc_to_retry_converts:
  "(body s = (Inl e, s') \<and> (\<exists>x. is_or_wraps e x \<and> isinstance x etypes) \<longrightarrow>
      (\<exists>r. exc_to_retry etypes body s = (Inl r, s') \<and> cls r = RetryRequest
           \<and> inner_exc r = Some e \<and> is_retriable r))
   \<and> (body s = (Inl e, s') \<and> \<not> (\<exists>x. is_or_wraps e x \<and> isinstance x etypes) \<longrightarrow>
      exc_to_retry etypes body s = (Inl e, s'))
   \<and> (body s = (Inr v, s') \<longrightarrow> exc_to_retry etypes body s = (Inr v, s'))"
proof -
  have new: "is_retriable (Exc RetryRequest False (str e) [] None (Some e))"
    by (simp add: is_retriable_def isinstance_def)
  have conv: "body s = (Inl e, s') \<Longrightarrow> is_nested_instance e etypes \<Longrightarrow>
      exc_to_retry etypes body s = (Inl (Exc RetryRequest False (str e) [] None (Some e)), s')"
    by (simp add: exc_to_retry_def)
  have keep: "body s = (Inl e, s') \<Longrightarrow> \<not> is_nested_instance e etypes \<Longrightarrow>
      exc_to_retry etypes body s = (Inl e, s')"
    by (simp add: exc_to_retry_def)
  have ret: "body s = (Inr v, s') \<Longrightarrow> exc_to_retry etypes body s = (Inr v, s')"
    by (simp add: exc_to_retry_def)
  from new conv keep ret show ?thesis
    unfolding is_nested_instance_iff by (metis exc.sel(1,6))
qed

theorem exc_to_retry_converts_witness:
  "(\<exists>q. exc_to_retry [DBDeadlock] raise_wrapped_deadlock 0 = (Inl q, 1)
        \<and> cls q = RetryRequest \<and> inner_exc q = Some deadlock_in_aggregate \<and> is_retriable q)
   \<and> exc_to_retry [StaleDataError] raise_wrapped_deadlock 0 = (Inl deadlock_in_aggregate, 1)
   \<and> exc_to_retry [StaleDataError] return_unit 0 = (Inr (), 1)"
proof -
  have b: "raise_wrapped_deadlock 0 = (Inl deadlock_in_aggregate, 1)"
    by (simp add: raise_wrapped_deadlock_def)
  have r: "return_unit 0 = (Inr (), 1)"
    by (simp add: return_unit_def)
  have y: "\<exists>x. is_or_wraps deadlock_in_aggregate x \<and> isinstance x [DBDeadlock]"
    unfolding is_nested_instance_iff [symmetric]
    by (simp add: deadlock_in_aggregate_def new_exc_def isinstance_def)
  have n: "\<not> (\<exists>x. is_or_wraps deadlock_in_aggregate x \<and> isinstance x [StaleDataError])"
    unfolding is_nested_instance_iff [symmetric]
    by (simp add: deadlock_in_aggregate_def new_exc_def isinstance_def)
  have "\<exists>q. exc_to_retry [DBDeadlock] raise_wrapped_deadlock 0 = (Inl q, 1)
        \<and> cls q = RetryRequest \<and> inner_exc q = Some deadlock_in_aggregate \<and> is_retriable q"
    using exc_to_retry_converts
      [of raise_wrapped_deadlock 0 deadlock_in_aggregate 1 "[DBDeadlock]"] b y
    by blast
  moreover have
    "exc_to_retry [StaleDataError] raise_wrapped_deadlock 0 = (Inl deadlock_in_aggregate, 1)"
    using exc_to_retry_converts
      [of raise_wrapped_deadlock 0 deadlock_in_aggregate 1 "[StaleDataError]"] b n
    by blast
  moreover have "exc_to_retry [StaleDataError] return_unit 0 = (Inr (), 1)"
    using exc_to_retry_converts [of return_unit 0 _ 1 "[StaleDataError]" "()"] r
    by blast
  ultimately show ?thesis by simp
qed

section \<open>The transaction context manager: proofs\<close>

lemma get_context_manager_again:
  "get_context_manager (snd (get_context_manager g)) = get_context_manager g"
  by (simp add: get_context_manager_def create_context_manager_def Let_def split: option.splits)

lemma get_context_manager_fixed:
  "((\<lambda>s. snd (get_context_manager s)) ^^ n) (snd (get_context_manager g)) = snd (get_context_manager g)"
  by (induction n) (simp_all add: get_context_manager_again)

text \<open>
  C10. After a first call of \<open>get_context_manager\<close>, any number of further calls returns the
  same transaction context and leaves the module state, the context in it included, as the
  first call left it: the singleton is neither replaced nor configured again. When the first
  call creates the context, \<^verbatim>\<open>configure\<close> has run on it exactly once.
\<close>

theorem get_context_manager_singleton:
  "get_context_manager (((\<lambda>s. snd (get_context_manager s)) ^^ n) (snd (get_context_manager g)))
     = get_context_manager g
   \<and> CTX_MANAGER (snd (get_context_manager g)) = Some (fst (get_context_manager g))
   \<and> (CTX_MANAGER g = None \<longrightarrow>
        configure_calls (fst (get_context_manager g)) = 1
        \<and> contexts_created (snd (get_context_manager g)) = Suc (contexts_created g))"
  by (simp add: get_context_manager_fixed get_context_manager_again)
     (simp add: get_context_manager_def create_context_manager_def Let_def configure_def
        enginefacade_transaction_context_def split: option.splits)

theorem get_context_manager_singleton_witness:
  "get_context_manager (snd (get_context_manager (snd (get_context_manager at_import))))
     = get_context_manager at_import
   \<and> CTX_MANAGER at_import = None
   \<and> fst (get_context_manager at_import)
     = \<lparr>ctx_id = 0, sqlite_fk = True, flush_on_subtransaction = True, configure_calls = 1\<rparr>
   \<and> contexts_created (snd (get_context_manager at_import)) = 1"
  using get_context_manager_singleton [of 1 at_import]
  by (simp add: at_import_def get_context_manager_def create_context_manager_def
      configure_def enginefacade_transaction_context_def Let_def)

section \<open>The event registry: proofs\<close>

text \<open>
  C9 (amended). \<open>sqla_remove\<close> removes the listener and the first recorded occurrence of the
  subscription when the subscription is found in both places. It does not tolerate a missing
  subscription: without such a listener it raises \<^verbatim>\<open>InvalidRequestError\<close> and changes nothing;
  with the listener but without the record it removes the listener and raises
  \<^verbatim>\<open>ValueError\<close>.
\<close>

theorem sqla_remove_found_or_raises:
  "(args \<in> set (sqla_listeners st) \<and> args \<in> set (REGISTERED_SQLA_EVENTS st) \<longrightarrow>
      sqla_remove args st =
        (Inr (), \<lparr>sqla_listeners = remove1 args (sqla_listeners st),
                  REGISTERED_SQLA_EVENTS = remove1 args (REGISTERED_SQLA_EVENTS st)\<rparr>))
   \<and> (args \<notin> set (sqla_listeners st) \<longrightarrow>
      (\<exists>e. sqla_remove args st = (Inl e, st) \<and> cls e = InvalidRequestError))
   \<and> (args \<in> set (sqla_listeners st) \<and> args \<notin> set (REGISTERED_SQLA_EVENTS st) \<longrightarrow>
      (\<exists>e. sqla_remove args st = (Inl e, st\<lparr>sqla_listeners := remove1 args (sqla_listeners st)\<rparr>)
           \<and> cls e = ValueError))"
  by (simp add: sqla_remove_def event_remove_def new_exc_def Let_def)

theorem sqla_remove_found_or_raises_witness:
  "sqla_remove ''before_commit'' (snd (sqla_listen ''before_commit'' no_events)) = (Inr (), no_events)
   \<and> (\<exists>e. sqla_remove ''before_commit'' no_events = (Inl e, no_events)
          \<and> cls e = InvalidRequestError)
   \<and> (\<exists>e. sqla_remove ''before_commit'' \<lparr>sqla_listeners = [''before_commit''],
                                          REGISTERED_SQLA_EVENTS = [''after_flush'']\<rparr>
            = (Inl e, \<lparr>sqla_listeners = [], REGISTERED_SQLA_EVENTS = [''after_flush'']\<rparr>)
          \<and> cls e = ValueError)"
  using sqla_remove_found_or_raises [of "''before_commit''" "snd (sqla_listen ''before_commit'' no_events)"]
    sqla_remove_found_or_raises [of "''before_commit''" no_events]
    sqla_remove_found_or_raises [of "''before_commit''"
       "\<lparr>sqla_listeners = [''before_commit''], REGISTERED_SQLA_EVENTS = [''after_flush'']\<rparr>"]
  by (simp add: sqla_listen_def event_listen_def no_events_def)

text \<open>
  C9 as stated fails: removing a subscription that was never registered raises.
\<close>

theorem sqla_remove_not_found_counterexample:
  "fst (sqla_remove ''before_commit'' no_events)
     = Inl (new_exc InvalidRequestError ''No listeners found for event'')"
  by (simp add: sqla_remove_def event_remove_def no_events_def)

text \<open>
  The bulk removal, by contrast, swallows the error of a listener that is already gone and
  always leaves the record empty.
\<close>

lemma sqla_remove_each_tolerates: "\<exists>ls'. sqla_remove_each recorded ls = Inr ls'"
  by (induction recorded arbitrary: ls)
     (auto simp: event_remove_def isinstance_def new_exc_def)

lemma sqla_remove_all_empties:
  "fst (sqla_remove_all st) = Inr () \<and> REGISTERED_SQLA_EVENTS (snd (sqla_remove_all st)) = []"
  using sqla_remove_each_tolerates [of "REGISTERED_SQLA_EVENTS st" "sqla_listeners st"]
  by (auto simp: sqla_remove_all_def)

section \<open>The commit-time relationship materializer: proofs\<close>























end
